theory Spec2Isabelle
  imports Main "HOL-Library.Word"
begin

unbundle bit_operations_syntax

section \<open>The PRBS generator of jnoise/prbsgenerator.h\<close>

text \<open>
  The class \<^verbatim>\<open>PRBSGenerator\<close> holds four \<^verbatim>\<open>uint32_t\<close> members and one \<^verbatim>\<open>int\<close>.
  The unsigned members are 32-bit words. The member \<^verbatim>\<open>_degr\<close> only counts the
  iterations of the loop of \<^verbatim>\<open>setPoly\<close>, which are at most 32 (lemma
  \<open>setPoly_result\<close> below), so it is a HOL integer. The other \<^verbatim>\<open>int\<close> values
  of the source (the bit returned by \<^verbatim>\<open>step\<close> and \<^verbatim>\<open>crc_out\<close>, the argument of
  \<^verbatim>\<open>crc_in\<close>, the probe \<^verbatim>\<open>h\<close> of \<^verbatim>\<open>sync_back\<close>) are kept as their 32-bit
  two's complement patterns, since the source mixes them with \<^verbatim>\<open>uint32_t\<close> in
  \<^verbatim>\<open>&\<close>, \<^verbatim>\<open>^\<close> and \<^verbatim>\<open>>>\<close>.
\<close>

type_synonym uint32_t = "32 word"

record PRBSGenerator =
  r_stat :: uint32_t
  r_poly :: uint32_t
  r_mask :: uint32_t
  r_hbit :: uint32_t
  r_degr :: int

text \<open>A failed \<^verbatim>\<open>assert\<close> aborts the program: it is the only error of the class.\<close>

datatype error = Assertion_failed

text \<open>The catalogue of polynomials of the anonymous \<^verbatim>\<open>enum\<close>.\<close>

definition G7 :: uint32_t where "G7 = 0x00000041"
definition G8 :: uint32_t where "G8 = 0x0000008E"
definition G15 :: uint32_t where "G15 = 0x00004001"
definition G16 :: uint32_t where "G16 = 0x00008016"
definition G23 :: uint32_t where "G23 = 0x00400010"
definition G24 :: uint32_t where "G24 = 0x0080000D"
definition G31 :: uint32_t where "G31 = 0x40000004"
definition G32 :: uint32_t where "G32 = 0x80000057"

definition catalogue :: "uint32_t list" where
  "catalogue = [G7, G8, G15, G16, G23, G24, G31, G32]"

text \<open>
  The constructor's initialiser list is \<^verbatim>\<open>_stat (0), _poly (0), _mask (0), _degr (0)\<close>:
  it names no \<^verbatim>\<open>_hbit\<close>, so that member keeps whatever its storage held. The
  indeterminate content is the parameter \<open>h\<close>.
\<close>

definition PRBSGenerator_init :: "uint32_t \<Rightarrow> PRBSGenerator" where
  "PRBSGenerator_init h = \<lparr>r_stat = 0, r_poly = 0, r_mask = 0, r_hbit = h, r_degr = 0\<rparr>"

text \<open>
  \<^verbatim>\<open>while (_mask < _poly) { _mask = (_mask << 1) | 1; _degr += 1; }\<close>
  The loop is a recursive function with values in \<open>option\<close>: \<open>None\<close> is a loop that
  never leaves.
\<close>

partial_function (option) setPoly_loop :: "PRBSGenerator \<Rightarrow> PRBSGenerator option" where
  "setPoly_loop r =
     (if r_mask r < r_poly r
      then setPoly_loop (r\<lparr>r_mask := push_bit 1 (r_mask r) OR 1, r_degr := r_degr r + 1\<rparr>)
      else Some r)"

definition setPoly :: "uint32_t \<Rightarrow> PRBSGenerator \<Rightarrow> (error + PRBSGenerator) option" where
  "setPoly p r =
     (if p = 0 then Some (Inl Assertion_failed)
      else case setPoly_loop (r\<lparr>r_poly := p, r_mask := 0, r_degr := 0\<rparr>) of
             None \<Rightarrow> None
           | Some r1 \<Rightarrow>
               (let r2 = r1\<lparr>r_stat := r_mask r1\<rparr>
                in Some (Inr (r2\<lparr>r_hbit := drop_bit 1 (r_mask r2) + 1\<rparr>))))"

text \<open>
  \<^verbatim>\<open>setStat\<close>: the first assertion, the assignment, the second assertion. The
  assignment happens before the second assertion aborts; an aborted call leaves no
  register to observe, so the error carries none.
\<close>

definition setStat :: "uint32_t \<Rightarrow> PRBSGenerator \<Rightarrow> error + PRBSGenerator" where
  "setStat s r =
     (if r_poly r = 0 then Inl Assertion_failed
      else let r1 = r\<lparr>r_stat := s AND r_mask r\<rparr>
           in if r_stat r1 = 0 then Inl Assertion_failed else Inr r1)"

text \<open>\<^verbatim>\<open>step\<close> returns the bit and the register.\<close>

definition step :: "PRBSGenerator \<Rightarrow> error + (uint32_t \<times> PRBSGenerator)" where
  "step r =
     (if r_poly r = 0 then Inl Assertion_failed
      else let b = r_stat r AND 1;
               r1 = r\<lparr>r_stat := drop_bit 1 (r_stat r)\<rparr>;
               r2 = (if b \<noteq> 0 then r1\<lparr>r_stat := r_stat r1 XOR r_poly r1\<rparr> else r1)
           in Inr (b, r2))"

text \<open>
  \<^verbatim>\<open>for (int i = 0; i < _degr; i++) { _stat >>= 1; if (bits & 1) _stat ^= _poly; bits >>= 1; }\<close>
\<close>

function sync_forw_loop :: "int \<Rightarrow> uint32_t \<Rightarrow> PRBSGenerator \<Rightarrow> PRBSGenerator" where
  "sync_forw_loop i bits r =
     (if i < r_degr r
      then let r1 = r\<lparr>r_stat := drop_bit 1 (r_stat r)\<rparr>;
               r2 = (if bits AND 1 \<noteq> 0 then r1\<lparr>r_stat := r_stat r1 XOR r_poly r1\<rparr> else r1)
           in sync_forw_loop (i + 1) (drop_bit 1 bits) r2
      else r)"
  by pat_completeness auto
termination
  by (relation "measure (\<lambda>(i, bits, r). nat (r_degr r - i))") (auto simp: Let_def)

declare sync_forw_loop.simps [simp del]

definition sync_forw :: "uint32_t \<Rightarrow> PRBSGenerator \<Rightarrow> error + PRBSGenerator" where
  "sync_forw bits r =
     (if r_poly r = 0 then Inl Assertion_failed else Inr (sync_forw_loop 0 bits r))"

text \<open>
  \<^verbatim>\<open>for (int h = _hbit; h; h >>= 1) { if (bits & h) _stat ^= _poly; _stat <<= 1; }\<close>
  The probe \<^verbatim>\<open>h\<close> is a signed \<^verbatim>\<open>int\<close>. Its initialisation from the unsigned
  \<^verbatim>\<open>_hbit\<close> keeps the bit pattern, \<^verbatim>\<open>bits & h\<close> converts it back to unsigned, and
  \<^verbatim>\<open>h >>= 1\<close> on a signed operand is the arithmetic shift that copies the sign bit
  (what C++20 prescribes and what GCC, Clang and MSVC do before it):
  \<open>signed_drop_bit\<close>. The loop can then run forever, so it has values in \<open>option\<close>.
\<close>

partial_function (option) sync_back_loop ::
    "uint32_t \<Rightarrow> uint32_t \<Rightarrow> PRBSGenerator \<Rightarrow> PRBSGenerator option" where
  "sync_back_loop h bits r =
     (if h \<noteq> 0
      then let r1 = (if bits AND h \<noteq> 0 then r\<lparr>r_stat := r_stat r XOR r_poly r\<rparr> else r);
               r2 = r1\<lparr>r_stat := push_bit 1 (r_stat r1)\<rparr>
           in sync_back_loop (signed_drop_bit 1 h) bits r2
      else Some r)"

definition sync_back :: "uint32_t \<Rightarrow> PRBSGenerator \<Rightarrow> (error + PRBSGenerator) option" where
  "sync_back bits r =
     (if r_poly r = 0 then Some (Inl Assertion_failed)
      else case sync_back_loop (r_hbit r) bits (r\<lparr>r_stat := 0\<rparr>) of
             None \<Rightarrow> None
           | Some r1 \<Rightarrow>
               (let r2 = r1\<lparr>r_stat := r_stat r1 XOR bits\<rparr>
                in Some (Inr (r2\<lparr>r_stat := r_stat r2 AND r_mask r2\<rparr>))))"

text \<open>
  \<^verbatim>\<open>crc_in (int b)\<close>: \<^verbatim>\<open>bit = (_stat & 1) ^ b\<close> is computed in \<^verbatim>\<open>uint32_t\<close> and
  tested for being non-zero.
\<close>

definition crc_in :: "uint32_t \<Rightarrow> PRBSGenerator \<Rightarrow> error + PRBSGenerator" where
  "crc_in b r =
     (if r_poly r = 0 then Inl Assertion_failed
      else let bit = (r_stat r AND 1) XOR b;
               r1 = r\<lparr>r_stat := drop_bit 1 (r_stat r)\<rparr>
           in Inr (if bit \<noteq> 0 then r1\<lparr>r_stat := r_stat r1 XOR r_poly r1\<rparr> else r1))"

definition crc_out :: "PRBSGenerator \<Rightarrow> error + (uint32_t \<times> PRBSGenerator)" where
  "crc_out r =
     (if r_poly r = 0 then Inl Assertion_failed
      else let bit = r_stat r AND 1
           in Inr (bit, r\<lparr>r_stat := drop_bit 1 (r_stat r)\<rparr>))"

text \<open>
  Calling \<^verbatim>\<open>step\<close> \<open>n\<close> times in a row: the returned bits, oldest first, and the
  register left behind. A failed assertion ends the run.
\<close>

fun steps :: "nat \<Rightarrow> PRBSGenerator \<Rightarrow> error + (uint32_t list \<times> PRBSGenerator)" where
  "steps 0 r = Inr ([], r)"
| "steps (Suc n) r =
     (case step r of
        Inl e \<Rightarrow> Inl e
      | Inr (b, r1) \<Rightarrow>
          (case steps n r1 of
             Inl e \<Rightarrow> Inl e
           | Inr (bs, r2) \<Rightarrow> Inr (b # bs, r2)))"

text \<open>
  A register is configured when its derived fields are the ones \<open>setPoly\<close> computes
  from its polynomial: running \<open>setPoly\<close> again with the same polynomial would only
  reset the state. Its state is within the mask when \<^verbatim>\<open>state & mask == state\<close>.
\<close>

definition configured :: "PRBSGenerator \<Rightarrow> bool" where
  "configured r =
     (r_poly r \<noteq> 0 \<and> setPoly (r_poly r) r = Some (Inr (r\<lparr>r_stat := r_mask r\<rparr>)))"

definition in_mask :: "PRBSGenerator \<Rightarrow> bool" where
  "in_mask r = (r_stat r AND r_mask r = r_stat r)"

text \<open>Two registers that differ in the state at most.\<close>

definition same_config :: "PRBSGenerator \<Rightarrow> PRBSGenerator \<Rightarrow> bool" where
  "same_config r r' =
     (r_poly r' = r_poly r \<and> r_mask r' = r_mask r \<and> r_hbit r' = r_hbit r
      \<and> r_degr r' = r_degr r)"

text \<open>The register \<^verbatim>\<open>setPoly (G7)\<close> leaves, used as a concrete input below.\<close>

definition reg_G7 :: PRBSGenerator where
  "reg_G7 = \<lparr>r_stat = 0x7F, r_poly = 0x41, r_mask = 0x7F, r_hbit = 0x40, r_degr = 7\<rparr>"

section \<open>State functions used in the proofs\<close>

text \<open>
  The state a successful \<open>step\<close> leaves, as a function of polynomial and state
  (lemma \<open>step_stepw\<close>), and the bits that \<open>n\<close> steps return (lemma \<open>steps_stepw\<close>).
\<close>

definition stepw :: "uint32_t \<Rightarrow> uint32_t \<Rightarrow> uint32_t" where
  "stepw p s = (if bit s 0 then drop_bit 1 s XOR p else drop_bit 1 s)"

definition outs :: "nat \<Rightarrow> uint32_t \<Rightarrow> uint32_t \<Rightarrow> uint32_t list" where
  "outs n p s = map (\<lambda>i. (stepw p ^^ i) s AND 1) [0..<n]"

text \<open>
  A list of returned bits packed into a word, first bit lowest; and the low \<open>n\<close> bits
  of a word as such a list.
\<close>

fun bits_lsb :: "uint32_t list \<Rightarrow> uint32_t" where
  "bits_lsb [] = 0"
| "bits_lsb (b # bs) = b OR push_bit 1 (bits_lsb bs)"

definition word_bits :: "nat \<Rightarrow> uint32_t \<Rightarrow> uint32_t list" where
  "word_bits n x = map (\<lambda>i. if bit x i then 1 else 0) [0..<n]"

text \<open>
  The state after \<open>n\<close> iterations of the loop of \<open>sync_forw\<close>, and after the
  iterations of the loop of \<open>sync_back\<close> that probe bits \<open>n - 1\<close> down to 0 (lemmas
  \<open>sync_forw_loop_state\<close> and \<open>sync_back_loop_state\<close>). \<open>back_acc d p x n\<close> is the state of
  the loop of \<open>sync_back\<close> after its first \<open>n\<close> iterations from state 0 with
  \<open>h = 2 ^ (d - 1)\<close>.
\<close>

fun forw_state :: "nat \<Rightarrow> uint32_t \<Rightarrow> uint32_t \<Rightarrow> uint32_t \<Rightarrow> uint32_t" where
  "forw_state 0 p b t = t"
| "forw_state (Suc n) p b t = forw_state n p (drop_bit 1 b) (if bit b 0 then drop_bit 1 t XOR p else drop_bit 1 t)"

fun back_state :: "nat \<Rightarrow> uint32_t \<Rightarrow> uint32_t \<Rightarrow> uint32_t \<Rightarrow> uint32_t" where
  "back_state 0 p b t = t"
| "back_state (Suc n) p b t = back_state n p b (push_bit 1 (if bit b n then t XOR p else t))"

fun back_acc :: "nat \<Rightarrow> uint32_t \<Rightarrow> uint32_t \<Rightarrow> nat \<Rightarrow> uint32_t" where
  "back_acc d p x 0 = 0"
| "back_acc d p x (Suc n) =
     push_bit 1 (if bit x (d - Suc n) then back_acc d p x n XOR p else back_acc d p x n)"

text \<open>The register \<^verbatim>\<open>setPoly (G32)\<close> leaves.\<close>

definition reg_G32 :: PRBSGenerator where
  "reg_G32 = \<lparr>r_stat = 0xFFFFFFFF, r_poly = 0x80000057, r_mask = 0xFFFFFFFF,
              r_hbit = 0x80000000, r_degr = 32\<rparr>"

section \<open>Bits of a word\<close>

lemma and_1_if: "(w :: uint32_t) AND 1 = (if bit w 0 then 1 else 0)"
  by (simp add: and_one_eq mod_2_eq_odd bit_0)

lemma and_1_neq0: "((w :: uint32_t) AND 1 \<noteq> 0) = bit w 0"
  by (simp add: and_1_if)

section \<open>What the operations leave alone\<close>

lemma same_config_refl: "same_config r r"
  by (simp add: same_config_def)

lemma same_config_trans: "same_config a b \<Longrightarrow> same_config b c \<Longrightarrow> same_config a c"
  by (simp add: same_config_def)

lemma same_config_eq: "same_config r r' = (r' = r\<lparr>r_stat := r_stat r'\<rparr>)"
  by (cases r, cases r') (auto simp: same_config_def)

lemma sync_forw_loop_frame: "same_config r (sync_forw_loop i bits r)"
proof (induction i bits r rule: sync_forw_loop.induct)
  case (1 i bits r)
  show ?case
  proof (cases "i < r_degr r")
    case True
    have "same_config r (if bits AND 1 \<noteq> 0 then r\<lparr>r_stat := drop_bit 1 (r_stat r) XOR r_poly r\<rparr>
             else r\<lparr>r_stat := drop_bit 1 (r_stat r)\<rparr>)"
      by (simp add: same_config_def)
    with "1.IH" [OF True refl refl] show ?thesis
      by (subst sync_forw_loop.simps) (auto simp: Let_def True intro: same_config_trans)
  next
    case False
    then show ?thesis by (simp add: sync_forw_loop.simps same_config_refl)
  qed
qed

lemma sync_back_loop_frame:
  assumes "sync_back_loop h bits r = Some r'"
  shows "same_config r r'"
proof (rule sync_back_loop.raw_induct [where P = "\<lambda>h bits r r'. same_config r r'", OF _ assms],
    goal_cases)
  case (1 loop h bits r r')
  show ?case
  proof (cases "h = 0")
    case True
    with 1(2) show ?thesis by (simp add: same_config_refl)
  next
    case False
    let ?r1 = "if bits AND h \<noteq> 0 then r\<lparr>r_stat := r_stat r XOR r_poly r\<rparr> else r"
    let ?r2 = "?r1\<lparr>r_stat := push_bit 1 (r_stat ?r1)\<rparr>"
    have "same_config r ?r2"
      by (simp add: same_config_def)
    moreover from 1(2) False have "loop (signed_drop_bit 1 h) bits ?r2 = Some r'"
      by (simp add: Let_def)
    then have "same_config ?r2 r'" by (rule 1(1))
    ultimately show ?thesis by (rule same_config_trans)
  qed
qed

text \<open>
  C9. Each of \<open>step\<close>, \<open>setStat\<close>, \<open>sync_forw\<close>, \<open>sync_back\<close>, \<open>crc_in\<close> and \<open>crc_out\<close>,
  when it returns, returns the register it was given with at most the state changed:
  polynomial, mask, degree and high bit are the same.
\<close>

theorem operations_frame:
  "(step r = Inr (b1, r1) \<longrightarrow> r1 = r\<lparr>r_stat := r_stat r1\<rparr>)
   \<and> (setStat s r = Inr r2 \<longrightarrow> r2 = r\<lparr>r_stat := r_stat r2\<rparr>)
   \<and> (sync_forw x r = Inr r3 \<longrightarrow> r3 = r\<lparr>r_stat := r_stat r3\<rparr>)
   \<and> (sync_back y r = Some (Inr r4) \<longrightarrow> r4 = r\<lparr>r_stat := r_stat r4\<rparr>)
   \<and> (crc_in c r = Inr r5 \<longrightarrow> r5 = r\<lparr>r_stat := r_stat r5\<rparr>)
   \<and> (crc_out r = Inr (b6, r6) \<longrightarrow> r6 = r\<lparr>r_stat := r_stat r6\<rparr>)"
proof -
  have "step r = Inr (b1, r1) \<Longrightarrow> same_config r r1"
    by (auto simp: step_def Let_def same_config_def split: if_splits)
  moreover have "setStat s r = Inr r2 \<Longrightarrow> same_config r r2"
    by (auto simp: setStat_def Let_def same_config_def split: if_splits)
  moreover have "sync_forw x r = Inr r3 \<Longrightarrow> same_config r r3"
    by (auto simp: sync_forw_def sync_forw_loop_frame split: if_splits)
  moreover have "sync_back y r = Some (Inr r4) \<Longrightarrow> same_config r r4"
    by (auto simp: sync_back_def Let_def same_config_def
        split: if_splits option.splits dest!: sync_back_loop_frame)
  moreover have "crc_in c r = Inr r5 \<Longrightarrow> same_config r r5"
    by (auto simp: crc_in_def Let_def same_config_def split: if_splits)
  moreover have "crc_out r = Inr (b6, r6) \<Longrightarrow> same_config r r6"
    by (auto simp: crc_out_def Let_def same_config_def split: if_splits)
  ultimately show ?thesis
    unfolding same_config_eq by blast
qed

theorem operations_frame_witness:
  "step reg_G7 = Inr (1, reg_G7\<lparr>r_stat := 0x7E\<rparr>)
   \<and> setStat 0x85 reg_G7 = Inr (reg_G7\<lparr>r_stat := 5\<rparr>)
   \<and> sync_forw 5 reg_G7 = Inr (reg_G7\<lparr>r_stat := 5\<rparr>)
   \<and> sync_back 5 reg_G7 = Some (Inr (reg_G7\<lparr>r_stat := 0x0F\<rparr>))
   \<and> crc_in 1 reg_G7 = Inr (reg_G7\<lparr>r_stat := 0x3F\<rparr>)
   \<and> crc_out reg_G7 = Inr (1, reg_G7\<lparr>r_stat := 0x3F\<rparr>)
   \<and> reg_G7\<lparr>r_stat := 0x7E\<rparr> = reg_G7\<lparr>r_stat := r_stat (reg_G7\<lparr>r_stat := 0x7E\<rparr>)\<rparr>"
proof -
  have 1: "step reg_G7 = Inr (1, reg_G7\<lparr>r_stat := 0x7E\<rparr>)"
    by (simp add: step_def reg_G7_def Let_def)
  have 2: "setStat 0x85 reg_G7 = Inr (reg_G7\<lparr>r_stat := 5\<rparr>)"
    by (simp add: setStat_def reg_G7_def Let_def)
  have 3: "sync_forw 5 reg_G7 = Inr (reg_G7\<lparr>r_stat := 5\<rparr>)"
    by (simp add: sync_forw_def sync_forw_loop.simps reg_G7_def Let_def)
  have 4: "sync_back 5 reg_G7 = Some (Inr (reg_G7\<lparr>r_stat := 0x0F\<rparr>))"
    by (simp add: sync_back_def sync_back_loop.simps reg_G7_def Let_def)
  have 5: "crc_in 1 reg_G7 = Inr (reg_G7\<lparr>r_stat := 0x3F\<rparr>)"
    by (simp add: crc_in_def reg_G7_def Let_def)
  have 6: "crc_out reg_G7 = Inr (1, reg_G7\<lparr>r_stat := 0x3F\<rparr>)"
    by (simp add: crc_out_def reg_G7_def Let_def)
  from 1 2 3 4 5 6
    operations_frame [of reg_G7 1 "reg_G7\<lparr>r_stat := 0x7E\<rparr>" "0x85" "reg_G7\<lparr>r_stat := 5\<rparr>"
      5 "reg_G7\<lparr>r_stat := 5\<rparr>" 5 "reg_G7\<lparr>r_stat := 0x0F\<rparr>"
      1 "reg_G7\<lparr>r_stat := 0x3F\<rparr>" 1 "reg_G7\<lparr>r_stat := 0x3F\<rparr>"]
  show ?thesis by blast
qed

section \<open>The step function\<close>

text \<open>
  C5. On a configured register with state \<open>s\<close>, \<open>step\<close> returns \<open>s AND 1\<close>, which is
  0 or 1; the new state is \<open>drop_bit 1 s XOR polynomial\<close> when that bit is 1 and
  \<open>drop_bit 1 s\<close> when it is 0; no other field is read or written.
\<close>

theorem step_spec:
  "r_poly r \<noteq> 0 \<Longrightarrow>
     step r = Inr (r_stat r AND 1,
                   r\<lparr>r_stat := (if r_stat r AND 1 = 1 then drop_bit 1 (r_stat r) XOR r_poly r
                                 else drop_bit 1 (r_stat r))\<rparr>)
     \<and> (r_stat r AND 1 = 0 \<or> r_stat r AND 1 = 1)"
  by (simp add: step_def Let_def and_1_if)

theorem step_spec_witness:
  "r_poly reg_G7 \<noteq> 0 \<and> step reg_G7 = Inr (1, reg_G7\<lparr>r_stat := 0x7E\<rparr>)"
  using step_spec [of reg_G7] by (simp add: reg_G7_def)

text \<open>
  C10. \<open>crc_in 0\<close> fails exactly when \<open>step\<close> fails, and otherwise leaves the register
  that \<open>step\<close> leaves; the bit that \<open>step\<close> returns is dropped.
\<close>

theorem crc_in_zero_is_step:
  "crc_in 0 r = (case step r of Inl e \<Rightarrow> Inl e | Inr (b, r') \<Rightarrow> Inr r')"
  by (simp add: crc_in_def step_def Let_def)

section \<open>Setting the state\<close>

text \<open>
  C7. \<open>setStat\<close> with a value whose masked part is zero fails with the assertion, on
  every register; and whenever \<open>setStat\<close> returns a register, its state is not zero.
\<close>

theorem setStat_rejects_zero:
  "(s AND r_mask r = 0 \<longrightarrow> setStat s r = Inl Assertion_failed)
   \<and> (setStat s r = Inr r' \<longrightarrow> r_stat r' \<noteq> 0)"
  by (auto simp: setStat_def Let_def split: if_splits)

theorem setStat_rejects_zero_witness:
  "(0x80 :: uint32_t) AND r_mask reg_G7 = 0 \<and> setStat 0x80 reg_G7 = Inl Assertion_failed
   \<and> setStat 0x85 reg_G7 = Inr (reg_G7\<lparr>r_stat := 5\<rparr>) \<and> r_stat (reg_G7\<lparr>r_stat := 5\<rparr>) \<noteq> 0"
proof -
  have a: "(0x80 :: uint32_t) AND r_mask reg_G7 = 0"
    by (simp add: reg_G7_def)
  have b: "setStat 0x85 reg_G7 = Inr (reg_G7\<lparr>r_stat := 5\<rparr>)"
    by (simp add: setStat_def reg_G7_def Let_def)
  from a b setStat_rejects_zero [of "0x80" reg_G7 "reg_G7\<lparr>r_stat := 5\<rparr>"]
    setStat_rejects_zero [of "0x85" reg_G7 "reg_G7\<lparr>r_stat := 5\<rparr>"]
  show ?thesis by blast
qed

section \<open>The constructor\<close>

text \<open>
  C8. The constructor sets state, polynomial, mask and degree to zero and leaves the
  high bit as it found it: built over storage that holds 1 there, the new instance has
  \<open>r_hbit = 1\<close>, not 0.
\<close>

theorem constructor_leaves_hbit:
  "PRBSGenerator_init 1
     = \<lparr>r_stat = 0, r_poly = 0, r_mask = 0, r_hbit = 1, r_degr = 0\<rparr>
   \<and> r_hbit (PRBSGenerator_init 1) \<noteq> 0"
  by (simp add: PRBSGenerator_init_def)

section \<open>Setting the polynomial\<close>

lemma mask_step: "push_bit 1 (mask k :: uint32_t) OR 1 = mask (Suc k)"
  by (simp add: mask_Suc_double or.commute mult.commute)


lemma setPoly_loop_run:
  "k \<le> 32 \<Longrightarrow> r_mask r = mask k \<Longrightarrow>
     \<exists>K. k \<le> K \<and> K \<le> 32 \<and> r_poly r \<le> mask K
       \<and> (\<forall>j. k \<le> j \<and> j < K \<longrightarrow> (mask j :: uint32_t) < r_poly r)
       \<and> setPoly_loop r = Some (r\<lparr>r_mask := mask K, r_degr := r_degr r + int (K - k)\<rparr>)"
proof (induction "32 - k" arbitrary: k r)
  case 0
  then have k: "k = 32" by simp
  have all: "(mask 32 :: uint32_t) = - 1" by (simp add: mask_eq_exp_minus_1)
  have "\<not> r_mask r < r_poly r"
    using 0 by (simp add: k all)
  then have "setPoly_loop r = Some r"
    by (subst setPoly_loop.simps) simp
  with 0 k show ?case
    by (intro exI [of _ 32]) (auto simp: all)
next
  case (Suc n)
  show ?case
  proof (cases "r_mask r < r_poly r")
    case False
    then have "setPoly_loop r = Some r"
      by (subst setPoly_loop.simps) simp
    with False Suc.prems show ?thesis
      by (intro exI [of _ k]) (auto simp: not_less)
  next
    case True
    let ?r = "r\<lparr>r_mask := push_bit 1 (r_mask r) OR 1, r_degr := r_degr r + 1\<rparr>"
    from Suc.hyps have k: "Suc k \<le> 32" "n = 32 - Suc k" by simp_all
    have "push_bit 1 (r_mask r) OR 1 = mask (Suc k)"
      by (simp only: Suc.prems mask_step)
    then have m: "r_mask ?r = mask (Suc k)"
      by simp
    from Suc.hyps(1) [OF k(2) k(1) m] obtain K where K: "Suc k \<le> K" "K \<le> 32"
      "r_poly r \<le> mask K" "\<forall>j. Suc k \<le> j \<and> j < K \<longrightarrow> (mask j :: uint32_t) < r_poly r"
      "setPoly_loop ?r = Some (?r\<lparr>r_mask := mask K, r_degr := r_degr ?r + int (K - Suc k)\<rparr>)"
      by auto
    have "setPoly_loop r = setPoly_loop ?r"
      using True by (subst setPoly_loop.simps) simp
    with K(5) K(1) have "setPoly_loop r = Some (r\<lparr>r_mask := mask K, r_degr := r_degr r + int (K - k)\<rparr>)"
      by (simp add: of_nat_diff)
    moreover have "\<forall>j. k \<le> j \<and> j < K \<longrightarrow> (mask j :: uint32_t) < r_poly r"
    proof (intro allI impI)
      fix j assume "k \<le> j \<and> j < K"
      then consider "j = k" | "Suc k \<le> j \<and> j < K" by linarith
      then show "(mask j :: uint32_t) < r_poly r"
        using True K(4) Suc.prems(2) by cases auto
    qed
    ultimately show ?thesis
      using K(1,2,3) by (intro exI [of _ K]) simp
  qed
qed

lemma unat_mask32: "k \<le> 32 \<Longrightarrow> unat (mask k :: uint32_t) = 2 ^ k - 1"
proof -
  assume "k \<le> 32"
  have "uint (mask k :: uint32_t) = (mask (min LENGTH(32) k) :: int)"
    by (rule uint_mask_eq)
  also have "\<dots> = 2 ^ k - 1"
    using \<open>k \<le> 32\<close> by (simp add: min_def mask_eq_exp_minus_1)
  finally have "unat (mask k :: uint32_t) = nat (2 ^ k - 1)"
    by (simp add: unat_eq_nat_uint)
  also have "\<dots> = 2 ^ k - 1"
    by (simp add: nat_diff_distrib nat_power_eq)
  finally show ?thesis .
qed

lemma mask_word_mono: "i \<le> j \<Longrightarrow> j \<le> 32 \<Longrightarrow> (mask i :: uint32_t) \<le> mask j"
  by (simp add: word_le_nat_alt unat_mask32 diff_le_mono)

lemma hbit_of_mask: "k \<le> 32 \<Longrightarrow> drop_bit 1 (mask k :: uint32_t) + 1 = 2 ^ (k - 1)"
proof -
  assume "k \<le> 32"
  then have "drop_bit 1 (mask k :: uint32_t) = mask (k - 1)"
    by (intro bit_word_eqI) (auto simp: bit_simps)
  then show ?thesis
    by (simp only: inc_mask_eq_exp)
qed

lemma setPoly_result:
  assumes "p \<noteq> 0"
  shows "\<exists>K. 1 \<le> K \<and> K \<le> 32 \<and> p \<le> mask K \<and> (\<forall>j<K. (mask j :: uint32_t) < p)
           \<and> setPoly p r = Some (Inr \<lparr>r_stat = mask K, r_poly = p, r_mask = mask K,
                                         r_hbit = 2 ^ (K - 1), r_degr = int K\<rparr>)"
proof -
  let ?r = "r\<lparr>r_poly := p, r_mask := 0, r_degr := 0\<rparr>"
  have "r_mask ?r = mask 0" by simp
  from setPoly_loop_run [OF _ this] obtain K where K: "K \<le> 32" "p \<le> mask K"
    "\<forall>j. j < K \<longrightarrow> (mask j :: uint32_t) < p"
    "setPoly_loop ?r = Some (?r\<lparr>r_mask := mask K, r_degr := int K\<rparr>)"
    by auto
  from assms K(2) have "K \<noteq> 0"
    by (cases K) auto
  with K hbit_of_mask [of K] show ?thesis
    by (intro exI [of _ K]) (cases r, simp add: setPoly_def assms)
qed

lemma mask_beyond: "32 \<le> j \<Longrightarrow> (mask j :: uint32_t) = - 1"
  by (intro bit_word_eqI) (auto simp: bit_simps)

lemma bit_length_unique:
  assumes "p \<le> mask K" "\<forall>j<K. (mask j :: uint32_t) < p"
    and "p \<le> mask K'" "\<forall>j<K'. (mask j :: uint32_t) < p"
  shows "K = K'"
proof (rule ccontr)
  assume "K \<noteq> K'"
  then consider "K < K'" | "K' < K" by linarith
  then show False
    using assms by cases (auto simp: not_less [symmetric])
qed

lemma setPoly_G7: "setPoly G7 r = Some (Inr reg_G7)"
  by (cases r) (simp add: setPoly_def G7_def reg_G7_def setPoly_loop.simps)

text \<open>
  C4. For every non-zero polynomial \<open>p\<close> and every register, \<open>setPoly p\<close> returns a
  register \<open>r'\<close> with, for some \<open>k\<close> between 1 and 32: the mask is \<open>2 ^ k - 1\<close>, it is
  at least \<open>p\<close>, and it is the least such value among the \<open>2 ^ j - 1\<close>; the degree is
  \<open>k\<close>, the bit length of \<open>p\<close>; the state is the mask; the high bit is
  \<open>(mask >> 1) + 1\<close>. A second \<open>setPoly p\<close> on \<open>r'\<close> returns \<open>r'\<close> again. For
  \<open>p = G7\<close> the degree is 7 and the mask \<open>0x7F\<close>.
\<close>

theorem setPoly_spec:
  assumes "p \<noteq> 0"
  shows "\<exists>k r'. setPoly p r = Some (Inr r')
           \<and> 1 \<le> k \<and> k \<le> 32
           \<and> r_mask r' = 2 ^ k - 1
           \<and> p \<le> r_mask r'
           \<and> (\<forall>j. p \<le> 2 ^ j - 1 \<longrightarrow> r_mask r' \<le> 2 ^ j - 1)
           \<and> r_degr r' = int k
           \<and> 2 ^ (k - 1) \<le> unat p \<and> unat p < 2 ^ k
           \<and> r_poly r' = p
           \<and> r_stat r' = r_mask r'
           \<and> r_hbit r' = drop_bit 1 (r_mask r') + 1
           \<and> setPoly p r' = Some (Inr r')
           \<and> (p = G7 \<longrightarrow> r_degr r' = 7 \<and> r_mask r' = 0x7F)"
proof -
  from setPoly_result [OF assms, of r] obtain K where K: "1 \<le> K" "K \<le> 32" "p \<le> mask K"
    "\<forall>j<K. (mask j :: uint32_t) < p"
    and res: "setPoly p r = Some (Inr \<lparr>r_stat = mask K, r_poly = p, r_mask = mask K,
                                         r_hbit = 2 ^ (K - 1), r_degr = int K\<rparr>)"
    by blast
  let ?r' = "\<lparr>r_stat = mask K, r_poly = p, r_mask = mask K, r_hbit = 2 ^ (K - 1), r_degr = int K\<rparr>"
  have smallest: "r_mask ?r' \<le> 2 ^ j - 1" if "p \<le> 2 ^ j - 1" for j
  proof -
    from that have pj: "p \<le> mask j" by (simp add: mask_eq_exp_minus_1)
    with K(4) have "K \<le> j" by (auto simp: not_less [symmetric])
    have "(mask K :: uint32_t) \<le> mask j"
    proof (cases "j \<le> 32")
      case True
      with \<open>K \<le> j\<close> show ?thesis by (rule mask_word_mono)
    next
      case False
      then show ?thesis by (simp add: mask_beyond)
    qed
    then show ?thesis by (simp add: mask_eq_exp_minus_1)
  qed
  from K(1,4) have "(mask (K - 1) :: uint32_t) < p" by simp
  then have lo: "2 ^ (K - 1) \<le> unat p"
    using K(2) by (simp add: word_less_nat_alt unat_mask32)
  from K(3) have "unat p \<le> 2 ^ K - 1"
    using K(2) by (simp add: word_le_nat_alt unat_mask32)
  moreover have "(0::nat) < 2 ^ K" by simp
  ultimately have hi: "unat p < 2 ^ K" by linarith
  have idem: "setPoly p ?r' = Some (Inr ?r')"
  proof -
    from setPoly_result [OF assms, of ?r'] obtain K' where K': "p \<le> mask K'"
      "\<forall>j<K'. (mask j :: uint32_t) < p"
      and res': "setPoly p ?r' = Some (Inr \<lparr>r_stat = mask K', r_poly = p, r_mask = mask K',
                                         r_hbit = 2 ^ (K' - 1), r_degr = int K'\<rparr>)"
      by blast
    from K(3,4) K' have "K = K'" by (rule bit_length_unique)
    with res' show ?thesis by simp
  qed
  have g7: "p = G7 \<longrightarrow> r_degr ?r' = 7 \<and> r_mask ?r' = 0x7F"
    using res setPoly_G7 [of r] by (auto simp: reg_G7_def)
  have hb: "r_hbit ?r' = drop_bit 1 (r_mask ?r') + 1"
    using hbit_of_mask [OF K(2)] by simp
  show ?thesis
    using res K(1,2,3) smallest lo hi idem g7 hb
    by (intro exI [of _ K] exI [of _ ?r']) (simp add: mask_eq_exp_minus_1)
qed

theorem setPoly_spec_witness:
  "G7 \<noteq> 0 \<and> setPoly G7 (PRBSGenerator_init 0) = Some (Inr reg_G7)
   \<and> (\<exists>k r'. setPoly G7 (PRBSGenerator_init 0) = Some (Inr r') \<and> r_mask r' = 2 ^ k - 1
         \<and> r_degr r' = int k \<and> r_degr r' = 7 \<and> r_mask r' = 0x7F
         \<and> setPoly G7 r' = Some (Inr r'))"
proof -
  have nz: "G7 \<noteq> 0" by (simp add: G7_def)
  from setPoly_spec [OF nz, of "PRBSGenerator_init 0"] nz setPoly_G7 [of "PRBSGenerator_init 0"]
  show ?thesis by auto
qed

section \<open>Steps as a state function\<close>

lemma step_stepw:
  "r_poly r \<noteq> 0 \<Longrightarrow> step r = Inr (r_stat r AND 1, r\<lparr>r_stat := stepw (r_poly r) (r_stat r)\<rparr>)"
  by (simp add: step_def stepw_def Let_def and_1_if)

lemma outs_Suc: "outs (Suc n) p s = (s AND 1) # outs n p (stepw p s)"
proof -
  have "[0..<Suc n] = 0 # map Suc [0..<n]"
    by (simp add: upt_conv_Cons map_Suc_upt del: upt_Suc)
  then show ?thesis
    by (simp add: outs_def funpow_swap1 comp_def del: upt_Suc)
qed

lemma steps_stepw:
  "r_poly r \<noteq> 0 \<Longrightarrow>
     steps n r = Inr (outs n (r_poly r) (r_stat r),
                      r\<lparr>r_stat := (stepw (r_poly r) ^^ n) (r_stat r)\<rparr>)"
proof (induction n arbitrary: r)
  case 0
  then show ?case by (simp add: outs_def)
next
  case (Suc n)
  let ?r1 = "r\<lparr>r_stat := stepw (r_poly r) (r_stat r)\<rparr>"
  have "r_poly ?r1 \<noteq> 0" using Suc.prems by simp
  from Suc.IH [OF this] Suc.prems show ?case
    by (simp add: step_stepw outs_Suc funpow_swap1)
qed

lemma sync_forw_loop_state:
  "sync_forw_loop i bits r = r\<lparr>r_stat := forw_state (nat (r_degr r - i)) (r_poly r) bits (r_stat r)\<rparr>"
proof (induction i bits r rule: sync_forw_loop.induct)
  case (1 i bits r)
  show ?case
  proof (cases "i < r_degr r")
    case True
    then have n: "nat (r_degr r - i) = Suc (nat (r_degr r - (i + 1)))"
      by simp
    show ?thesis
    proof (cases "bit bits 0")
      case b: True
      with "1.IH" [OF True refl refl] True show ?thesis
        by (subst sync_forw_loop.simps, subst n) (simp add: Let_def and_1_neq0)
    next
      case b: False
      with "1.IH" [OF True refl refl] True show ?thesis
        by (subst sync_forw_loop.simps, subst n) (simp add: Let_def and_1_neq0)
    qed
  next
    case False
    then show ?thesis by (simp add: sync_forw_loop.simps)
  qed
qed

lemma pow2_probe: "((bits :: uint32_t) AND 2 ^ j \<noteq> 0) = bit bits j"
  by (simp add: and_exp_eq_0_iff_not_bit)

lemma signed_drop_bit_pow2:
  "j < 31 \<Longrightarrow> signed_drop_bit 1 (2 ^ j :: uint32_t) = (if j = 0 then 0 else 2 ^ (j - 1))"
  by (intro bit_word_eqI) (auto simp: bit_simps)

lemma sync_back_loop_0: "sync_back_loop 0 bits r = Some r"
  by (subst sync_back_loop.simps) simp

lemma sync_back_loop_state:
  "j < 31 \<Longrightarrow>
     sync_back_loop (2 ^ j) bits r = Some (r\<lparr>r_stat := back_state (Suc j) (r_poly r) bits (r_stat r)\<rparr>)"
proof (induction j arbitrary: r)
  case 0
  show ?case
    by (subst sync_back_loop.simps) (simp add: Let_def and_1_neq0 sync_back_loop_0)
next
  case (Suc j)
  then have j: "j < 31" by simp
  have nz: "(2 ^ Suc j :: uint32_t) \<noteq> 0"
    using Suc.prems by (simp only: exp_eq_zero_iff) simp
  show ?case
    apply (subst sync_back_loop.simps)
    apply (simp only: nz signed_drop_bit_pow2 [OF Suc.prems] pow2_probe Let_def)
    apply (simp add: Suc.IH [OF j])
    done
qed

section \<open>Forward synchronisation\<close>

lemma bit_or_push_0: "0 < n \<Longrightarrow> bit ((b::uint32_t) OR push_bit n B) 0 = bit b 0"
  by (auto simp: bit_simps)

lemma bit_drop_or_push:
  "bit (drop_bit n ((a::uint32_t) OR push_bit n B)) i = (bit a (n + i) \<or> (n + i < 32 \<and> bit B i))"
  by (auto simp: bit_simps)

lemma bit_and_1_high: "0 < j \<Longrightarrow> \<not> bit ((s::uint32_t) AND 1) j"
  by (auto simp: bit_simps)

lemma bit0_cons: "bit ((b::uint32_t) OR push_bit 1 B) 0 = bit b 0"
  by (rule bit_or_push_0) simp

lemma bitS_cons: "i < 31 \<Longrightarrow> bit (drop_bit 1 ((s AND 1) OR push_bit 1 (B::uint32_t))) i = bit B i"
  by (simp only: bit_drop_or_push) (simp add: bit_and_1_high)


lemma forw_state_cong: "(\<And>i. i < n \<Longrightarrow> bit b i = bit b' i) \<Longrightarrow> forw_state n p b t = forw_state n p b' t"
proof (induction n arbitrary: b b' t)
  case 0
  show ?case by simp
next
  case (Suc n)
  have 0: "bit b 0 = bit b' 0" by (rule Suc.prems) simp
  have "forw_state n p (drop_bit 1 b) u = forw_state n p (drop_bit 1 b') u" for u
    by (rule Suc.IH) (simp add: bit_simps Suc.prems)
  with 0 show ?case by simp
qed

lemma forw_state_replay:
  "n \<le> 32 \<Longrightarrow> forw_state n p (bits_lsb (outs n p s)) t = (stepw p ^^ n) s XOR drop_bit n (s XOR t)"
proof (induction n arbitrary: s t)
  case 0
  show ?case by simp
next
  case (Suc n)
  let ?B = "bits_lsb (outs n p (stepw p s))"
  let ?X = "(s AND 1) OR push_bit 1 ?B"
  let ?t = "if bit s 0 then drop_bit 1 t XOR p else drop_bit 1 t"
  from Suc.prems have n: "n \<le> 32" "n < 32" by simp_all
  have X0: "bit ?X 0 = bit s 0"
    by (simp only: bit0_cons) (simp add: and_1_if)
  have "bits_lsb (outs (Suc n) p s) = ?X"
    by (simp only: outs_Suc bits_lsb.simps)
  then have "forw_state (Suc n) p (bits_lsb (outs (Suc n) p s)) t = forw_state (Suc n) p ?X t"
    by (rule arg_cong)
  also have "\<dots> = forw_state n p (drop_bit 1 ?X) ?t"
    by (simp only: forw_state.simps X0)
  also have "\<dots> = forw_state n p ?B ?t"
  proof (rule forw_state_cong)
    fix i assume "i < n"
    with n(2) show "bit (drop_bit 1 ?X) i = bit ?B i"
      by (intro bitS_cons) simp
  qed
  also have "\<dots> = (stepw p ^^ n) (stepw p s) XOR drop_bit n (stepw p s XOR ?t)"
    by (rule Suc.IH [OF n(1)])
  also have "stepw p s XOR ?t = drop_bit 1 (s XOR t)"
    by (simp add: stepw_def drop_bit_xor xor.assoc xor.left_commute xor.commute)
  also have "drop_bit n (drop_bit 1 (s XOR t)) = drop_bit (Suc n) (s XOR t)"
    by (simp add: drop_bit_drop_bit)
  also have "(stepw p ^^ n) (stepw p s) = (stepw p ^^ Suc n) s"
    by (simp add: funpow_swap1)
  finally show ?case .
qed

lemma in_mask_drop: "(s::uint32_t) AND mask K = s \<Longrightarrow> drop_bit K s = 0"
  by (metis take_bit_eq_mask take_bit_eq_self_iff_drop_bit_eq_0)

lemma configuredD:
  assumes "configured r"
  shows "\<exists>K. 1 \<le> K \<and> K \<le> 32 \<and> r_poly r \<le> mask K \<and> (\<forall>j<K. (mask j :: uint32_t) < r_poly r)
           \<and> r_mask r = mask K \<and> r_hbit r = 2 ^ (K - 1) \<and> r_degr r = int K"
proof -
  from assms have p: "r_poly r \<noteq> 0"
    and eq: "setPoly (r_poly r) r = Some (Inr (r\<lparr>r_stat := r_mask r\<rparr>))"
    by (simp_all add: configured_def)
  from setPoly_result [OF p, of r] obtain K where K: "1 \<le> K" "K \<le> 32" "r_poly r \<le> mask K"
    "\<forall>j<K. (mask j :: uint32_t) < r_poly r"
    and res: "setPoly (r_poly r) r = Some (Inr \<lparr>r_stat = mask K, r_poly = r_poly r, r_mask = mask K,
                                         r_hbit = 2 ^ (K - 1), r_degr = int K\<rparr>)"
    by blast
  from eq res have "r\<lparr>r_stat := r_mask r\<rparr> = \<lparr>r_stat = mask K, r_poly = r_poly r, r_mask = mask K,
                                         r_hbit = 2 ^ (K - 1), r_degr = int K\<rparr>"
    by simp
  then have "r_mask r = mask K \<and> r_hbit r = 2 ^ (K - 1) \<and> r_degr r = int K"
    by (cases r) simp
  with K show ?thesis by blast
qed

text \<open>
  C2 (amended). On a configured register whose state is within the mask, let \<open>bs\<close> be
  the bits that \<open>degree\<close> calls of \<open>step\<close> return and \<open>r'\<close> the register they leave.
  Then \<open>sync_forw\<close> with those bits, packed first bit lowest, takes the register from
  any state \<open>t\<close> within the mask to \<open>r'\<close>: it puts the generator in the state it has
  after producing those bits, as the header of the source says.
\<close>

theorem sync_forw_replays_steps:
  assumes "configured r" and "in_mask r" and "t AND r_mask r = t"
  shows "\<exists>bs r'. steps (nat (r_degr r)) r = Inr (bs, r')
           \<and> sync_forw (bits_lsb bs) (r\<lparr>r_stat := t\<rparr>) = Inr r'"
proof -
  from configuredD [OF assms(1)] obtain K where K: "K \<le> 32" "r_mask r = mask K" "r_degr r = int K"
    by blast
  from assms(1) have p: "r_poly r \<noteq> 0" by (simp add: configured_def)
  let ?bs = "outs K (r_poly r) (r_stat r)"
  let ?r' = "r\<lparr>r_stat := (stepw (r_poly r) ^^ K) (r_stat r)\<rparr>"
  have st: "steps (nat (r_degr r)) r = Inr (?bs, ?r')"
    using steps_stepw [OF p, of K] K(3) by simp
  from assms(2) K(2) have "drop_bit K (r_stat r) = 0"
    by (simp add: in_mask_def in_mask_drop)
  moreover from assms(3) K(2) have "drop_bit K t = 0"
    by (simp add: in_mask_drop)
  ultimately have "forw_state K (r_poly r) (bits_lsb ?bs) t = (stepw (r_poly r) ^^ K) (r_stat r)"
    using forw_state_replay [OF K(1), of "r_poly r" "r_stat r" t] by (simp add: drop_bit_xor)
  then have "sync_forw (bits_lsb ?bs) (r\<lparr>r_stat := t\<rparr>) = Inr ?r'"
    using p K(3) by (simp add: sync_forw_def sync_forw_loop_state)
  with st show ?thesis by blast
qed

section \<open>Backward synchronisation\<close>

lemma back_state_acc: "n \<le> d \<Longrightarrow> back_state n p x (back_acc d p x (d - n)) = back_acc d p x d"
proof (induction n)
  case 0
  show ?case by simp
next
  case (Suc n)
  then have "d - n = Suc (d - Suc n)" "d - Suc (d - Suc n) = n" "n \<le> d"
    by simp_all
  with Suc.IH show ?case
    by (simp del: push_bit_Suc)
qed

lemma back_acc_bit0: "\<not> bit (back_acc d p x (Suc n)) 0"
  by (simp only: back_acc.simps bit_push_bit_iff) simp

lemma back_steps:
  assumes d: "d \<le> 32" and S: "take_bit d S = take_bit d (x XOR back_acc d p x d)"
  shows "k \<le> d \<Longrightarrow> i < d - k \<Longrightarrow>
           bit ((stepw p ^^ k) S) i = (bit x (k + i) \<noteq> bit (back_acc d p x (d - k)) i)"
proof (induction k arbitrary: i)
  case 0
  then have i: "i < d" by simp
  have "bit S i = bit (take_bit d S) i"
    using i by (simp add: bit_take_bit_iff)
  also have "\<dots> = bit (take_bit d (x XOR back_acc d p x d)) i"
    by (simp only: S)
  also have "\<dots> = bit (x XOR back_acc d p x d) i"
    using i by (simp only: bit_take_bit_iff) simp
  finally show ?case
    by (simp add: bit_xor_iff)
next
  case (Suc k)
  let ?s = "(stepw p ^^ k) S"
  let ?A = "back_acc d p x (d - Suc k)"
  let ?Y = "if bit x k then ?A XOR p else ?A"
  from Suc.prems have k: "k \<le> d" "d - k = Suc (d - Suc k)" "d - Suc (d - Suc k) = k"
    by simp_all
  have A: "back_acc d p x (d - k) = push_bit 1 ?Y"
    by (simp only: k back_acc.simps)
  have s0: "bit ?s 0 = bit x k"
    using Suc.IH [OF k(1), of 0] Suc.prems
    by (simp only: A bit_push_bit_iff) simp
  have "Suc i < d - k" using Suc.prems by simp
  from Suc.IH [OF k(1) this]
  have "bit ?s (Suc i) = (bit x (k + Suc i) \<noteq> bit (push_bit 1 ?Y) (Suc i))"
    by (simp only: A)
  moreover have "i < 31" using Suc.prems d by linarith
  then have "bit (push_bit 1 ?Y) (Suc i) = bit ?Y i"
    by (simp only: bit_push_bit_iff possible_bit_word) simp
  ultimately have s1: "bit ?s (Suc i) = (bit x (Suc k + i) \<noteq> bit ?Y i)"
    by simp
  have "(stepw p ^^ Suc k) S = stepw p ?s" by simp
  also have "\<dots> = (if bit x k then drop_bit 1 ?s XOR p else drop_bit 1 ?s)"
    by (simp only: stepw_def s0)
  finally have "bit ((stepw p ^^ Suc k) S) i = (bit ?s (Suc i) \<noteq> (bit x k \<and> bit p i))"
    by (simp add: bit_xor_iff bit_drop_bit_eq)
  with s1 show ?case
    by (auto simp: bit_xor_iff)
qed

lemma back_outs:
  assumes d: "d \<le> 32" and S: "take_bit d S = take_bit d (x XOR back_acc d p x d)"
  shows "outs d p S = word_bits d x"
proof -
  have "(stepw p ^^ k) S AND 1 = (if bit x k then 1 else 0)" if "k < d" for k
  proof -
    from that have "d - k = Suc (d - Suc k)" by simp
    then have "\<not> bit (back_acc d p x (d - k)) 0"
      by (simp only: back_acc_bit0 not_False_eq_True)
    with back_steps [OF d S, of k 0] that show ?thesis
      by (simp add: and_1_if)
  qed
  then show ?thesis
    by (simp add: outs_def word_bits_def)
qed

text \<open>
  On a configured register of degree at most 31, \<open>sync_back x\<close> returns, and the next
  \<open>degree\<close> calls of \<open>step\<close> return the low \<open>degree\<close> bits of \<open>x\<close>, lowest first.
\<close>

lemma sync_back_returns:
  assumes "configured r" and "r_degr r < 32"
  shows "\<exists>S r2. sync_back x r = Some (Inr (r\<lparr>r_stat := S\<rparr>)) \<and> S AND r_mask r = S
           \<and> steps (nat (r_degr r)) (r\<lparr>r_stat := S\<rparr>)
               = Inr (word_bits (nat (r_degr r)) x, r2)"
proof -
  from configuredD [OF assms(1)] obtain K where K: "1 \<le> K" "K \<le> 32" "r_mask r = mask K"
    "r_hbit r = 2 ^ (K - 1)" "r_degr r = int K"
    by blast
  from assms(1) have p: "r_poly r \<noteq> 0" by (simp add: configured_def)
  from assms(2) K have K1: "K - 1 < 31" "Suc (K - 1) = K" by simp_all
  let ?p = "r_poly r"
  let ?S = "(back_acc K ?p x K XOR x) AND mask K"
  have acc: "back_state K ?p x 0 = back_acc K ?p x K"
    using back_state_acc [of K K ?p x] by simp
  have "sync_back_loop (2 ^ (K - 1)) x (r\<lparr>r_stat := 0\<rparr>)
          = Some (r\<lparr>r_stat := 0\<rparr>\<lparr>r_stat := back_state (Suc (K - 1)) (r_poly (r\<lparr>r_stat := 0\<rparr>)) x
                                              (r_stat (r\<lparr>r_stat := 0\<rparr>))\<rparr>)"
    by (rule sync_back_loop_state [OF K1(1)])
  then have "sync_back_loop (r_hbit r) x (r\<lparr>r_stat := 0\<rparr>)
          = Some (r\<lparr>r_stat := back_acc K ?p x K\<rparr>)"
    unfolding K1(2) by (simp add: K(4) acc)
  then have sb: "sync_back x r = Some (Inr (r\<lparr>r_stat := ?S\<rparr>))"
    using p K(3) by (simp add: sync_back_def)
  have "take_bit K ?S = take_bit K (x XOR back_acc K ?p x K)"
    by (simp add: take_bit_eq_mask xor.commute)
  from back_outs [OF K(2) this]
  have "steps K (r\<lparr>r_stat := ?S\<rparr>)
          = Inr (word_bits K x, r\<lparr>r_stat := (stepw ?p ^^ K) ?S\<rparr>)"
    using steps_stepw [of "r\<lparr>r_stat := ?S\<rparr>" K] p by simp
  moreover have "?S AND r_mask r = ?S"
    by (simp add: K(3) and.assoc)
  ultimately show ?thesis
    using sb K(5) by (intro exI [of _ ?S]) simp
qed

text \<open>
  A probe with the sign bit set never becomes zero under the arithmetic shift, so the
  loop of \<open>sync_back\<close> does not end.
\<close>

lemma sync_back_loop_negative:
  assumes "bit h 31"
  shows "sync_back_loop h bits r = None"
proof -
  have "\<not> bit h 31" if "sync_back_loop h bits r = Some r'" for r'
  proof (rule sync_back_loop.raw_induct [where P = "\<lambda>h bits r r'. \<not> bit h 31", OF _ that],
      goal_cases)
    case (1 loop h bits r r')
    show ?case
    proof (cases "h = 0")
      case True
      then show ?thesis by simp
    next
      case False
      with 1(2) obtain r2 where "loop (signed_drop_bit 1 h) bits r2 = Some r'"
        by (auto simp: Let_def)
      then have "\<not> bit (signed_drop_bit 1 h) 31" by (rule 1(1))
      then show ?thesis by (simp add: bit_signed_drop_bit_iff)
    qed
  qed
  with assms show ?thesis by (cases "sync_back_loop h bits r") auto
qed

lemma setPoly_G32: "setPoly G32 r = Some (Inr reg_G32)"
  by (cases r) (simp add: setPoly_def G32_def reg_G32_def setPoly_loop.simps)

text \<open>
  C1. The claim fails at degree 32: \<open>setPoly G32\<close> leaves \<open>r_hbit = 0x80000000\<close>, which
  the \<^verbatim>\<open>int\<close> probe of \<open>sync_back\<close> holds as a negative number, and \<open>sync_back x\<close> does
  not return for any \<open>x\<close>.
\<close>

theorem sync_back_G32_never_returns:
  "setPoly G32 (PRBSGenerator_init 0) = Some (Inr reg_G32)
   \<and> (\<forall>x. sync_back x reg_G32 = None)"
proof -
  have "bit (r_hbit reg_G32) 31" by (simp add: reg_G32_def)
  then have "sync_back_loop (r_hbit reg_G32) x (reg_G32\<lparr>r_stat := 0\<rparr>) = None" for x
    by (rule sync_back_loop_negative)
  moreover have "r_poly reg_G32 \<noteq> 0" by (simp add: reg_G32_def)
  ultimately show ?thesis
    by (simp add: sync_back_def setPoly_G32)
qed

section \<open>Forward synchronisation on G7\<close>

lemma configured_G7: "configured reg_G7"
  by (simp add: configured_def reg_G7_def setPoly_def setPoly_loop.simps)

lemma steps_G7: "steps 7 reg_G7 = Inr ([1, 0, 1, 0, 1, 0, 1], reg_G7\<lparr>r_stat := 0x54\<rparr>)"
  by code_simp

theorem sync_forw_replays_steps_witness:
  "configured reg_G7 \<and> in_mask reg_G7 \<and> 0x15 AND r_mask reg_G7 = 0x15
   \<and> steps (nat (r_degr reg_G7)) reg_G7 = Inr ([1, 0, 1, 0, 1, 0, 1], reg_G7\<lparr>r_stat := 0x54\<rparr>)
   \<and> bits_lsb [1, 0, 1, 0, 1, 0, 1] = 0x55
   \<and> sync_forw 0x55 (reg_G7\<lparr>r_stat := 0x15\<rparr>) = Inr (reg_G7\<lparr>r_stat := 0x54\<rparr>)"
proof -
  have a: "in_mask reg_G7" by code_simp
  have b: "0x15 AND r_mask reg_G7 = 0x15" by code_simp
  have d: "nat (r_degr reg_G7) = 7" by (simp add: reg_G7_def)
  have e: "bits_lsb [1, 0, 1, 0, 1, 0, 1] = 0x55" by code_simp
  from sync_forw_replays_steps [OF configured_G7 a b] configured_G7 a b e steps_G7
  show ?thesis unfolding d by auto
qed

text \<open>
  The claim as stated fails on \<open>G7\<close>: after \<open>sync_forw 0x40\<close> from the reset state the
  next 7 steps return 1, 1, 1, 1, 1, 1, 0, and the bits of \<open>0x40\<close> are 0, 0, 0, 0, 0, 0, 1.
\<close>

theorem sync_forw_then_steps_counterexample:
  "configured reg_G7 \<and> in_mask reg_G7 \<and> r_stat reg_G7 \<noteq> 0
   \<and> 0x40 AND r_mask reg_G7 = 0x40
   \<and> sync_forw 0x40 reg_G7 = Inr (reg_G7\<lparr>r_stat := 0x41\<rparr>)
   \<and> steps 7 (reg_G7\<lparr>r_stat := 0x41\<rparr>)
       = Inr ([1, 1, 1, 1, 1, 1, 0], reg_G7\<lparr>r_stat := 0x3F\<rparr>)
   \<and> word_bits 7 0x40 = [0, 0, 0, 0, 0, 0, 1]"
proof -
  have "sync_forw 0x40 reg_G7 = Inr (reg_G7\<lparr>r_stat := 0x41\<rparr>)"
    by code_simp
  moreover have "steps 7 (reg_G7\<lparr>r_stat := 0x41\<rparr>)
       = Inr ([1, 1, 1, 1, 1, 1, 0], reg_G7\<lparr>r_stat := 0x3F\<rparr>)"
    by code_simp
  moreover have "word_bits 7 0x40 = [0, 0, 0, 0, 0, 0, 1]"
    by code_simp
  moreover have "in_mask reg_G7" "r_stat reg_G7 \<noteq> 0" "0x40 AND r_mask reg_G7 = 0x40"
    by (simp_all add: in_mask_def reg_G7_def)
  ultimately show ?thesis
    using configured_G7 by blast
qed

section \<open>The state invariant\<close>

lemma le_mask_iff: "K \<le> 32 \<Longrightarrow> ((p::uint32_t) \<le> mask K) = (p AND mask K = p)"
proof -
  assume K: "K \<le> 32"
  have "(0::nat) < 2 ^ K" by simp
  then have "(unat p \<le> 2 ^ K - 1) = (unat p < 2 ^ K)" by linarith
  also have "\<dots> = (int (unat p) < int (2 ^ K))"
    by (simp only: of_nat_less_iff)
  also have "\<dots> = (uint p < 2 ^ K)"
    by (simp only: uint_nat of_nat_power of_nat_numeral)
  also have "\<dots> = (p AND mask K = p)"
    by (simp only: mask_eq_iff)
  finally have "(unat p \<le> 2 ^ K - 1) = (p AND mask K = p)" .
  then show ?thesis
    using K by (simp only: word_le_nat_alt unat_mask32)
qed

lemma in_mask_bits: "((s::uint32_t) AND mask K = s) = (\<forall>i. bit s i \<longrightarrow> i < K)"
proof
  assume eq: "s AND mask K = s"
  show "\<forall>i. bit s i \<longrightarrow> i < K"
  proof (intro allI impI)
    fix i assume "bit s i"
    then have "bit (s AND mask K) i" by (simp only: eq)
    then show "i < K" by (simp add: bit_and_iff bit_mask_iff)
  qed
next
  assume "\<forall>i. bit s i \<longrightarrow> i < K"
  then show "s AND mask K = s"
    by (intro bit_word_eqI) (auto simp: bit_and_iff bit_mask_iff)
qed

lemma nonzero_bits: "((s::uint32_t) \<noteq> 0) = (\<exists>i. bit s i)"
proof
  assume "s \<noteq> 0"
  show "\<exists>i. bit s i"
  proof (rule ccontr)
    assume "\<not> (\<exists>i. bit s i)"
    then have "s = 0" by (intro bit_word_eqI) simp
    with \<open>s \<noteq> 0\<close> show False by simp
  qed
next
  assume "\<exists>i. bit s i"
  then show "s \<noteq> 0" by auto
qed

lemma poly_top_bit:
  assumes "1 \<le> K" "K \<le> 32" "(mask (K - 1) :: uint32_t) < p" "p \<le> mask K"
  shows "bit p (K - 1)"
proof -
  from assms(2,3) have "\<not> p \<le> mask (K - 1)" by simp
  then have "\<not> (\<forall>i. bit p i \<longrightarrow> i < K - 1)"
    using assms(2) by (simp add: le_mask_iff in_mask_bits)
  then obtain i where i: "bit p i" "K - 1 \<le> i" by (auto simp: not_less)
  from assms(2,4) have "\<forall>i. bit p i \<longrightarrow> i < K"
    by (simp add: le_mask_iff in_mask_bits)
  with i have "i = K - 1" by fastforce
  with i show ?thesis by simp
qed

lemma configured_bits:
  assumes "configured r"
  shows "\<exists>K. 1 \<le> K \<and> K \<le> 32 \<and> r_mask r = mask K \<and> r_degr r = int K \<and> r_hbit r = 2 ^ (K - 1)
           \<and> bit (r_poly r) (K - 1) \<and> (\<forall>i. bit (r_poly r) i \<longrightarrow> i < K)"
proof -
  from configuredD [OF assms] obtain K where K: "1 \<le> K" "K \<le> 32" "r_poly r \<le> mask K"
    "\<forall>j<K. (mask j :: uint32_t) < r_poly r" "r_mask r = mask K" "r_hbit r = 2 ^ (K - 1)"
    "r_degr r = int K"
    by blast
  from K(1,4) have "(mask (K - 1) :: uint32_t) < r_poly r" by simp
  from poly_top_bit [OF K(1,2) this K(3)] have "bit (r_poly r) (K - 1)" .
  moreover from K(2,3) have "\<forall>i. bit (r_poly r) i \<longrightarrow> i < K"
    by (simp add: le_mask_iff in_mask_bits)
  ultimately show ?thesis using K by blast
qed

lemma setPoly_indep: "setPoly p r = setPoly p r'"
proof (cases "p = 0")
  case True
  then show ?thesis by (simp add: setPoly_def)
next
  case False
  from setPoly_result [OF False, of r] obtain K where K: "p \<le> mask K"
    "\<forall>j<K. (mask j :: uint32_t) < p"
    "setPoly p r = Some (Inr \<lparr>r_stat = mask K, r_poly = p, r_mask = mask K,
                                         r_hbit = 2 ^ (K - 1), r_degr = int K\<rparr>)"
    by blast
  from setPoly_result [OF False, of r'] obtain K' where K': "p \<le> mask K'"
    "\<forall>j<K'. (mask j :: uint32_t) < p"
    "setPoly p r' = Some (Inr \<lparr>r_stat = mask K', r_poly = p, r_mask = mask K',
                                         r_hbit = 2 ^ (K' - 1), r_degr = int K'\<rparr>)"
    by blast
  from K(1,2) K'(1,2) have "K = K'" by (rule bit_length_unique)
  with K(3) K'(3) show ?thesis by simp
qed

lemma configured_stat: "configured (r\<lparr>r_stat := s\<rparr>) = configured r"
  using setPoly_indep [of "r_poly r" "r\<lparr>r_stat := s\<rparr>" r]
  by (simp add: configured_def)

lemma setPoly_configured:
  assumes "p \<noteq> 0"
  shows "\<exists>r'. setPoly p r = Some (Inr r') \<and> configured r' \<and> in_mask r' \<and> r_stat r' \<noteq> 0"
proof -
  from setPoly_result [OF assms, of r] obtain K where K: "1 \<le> K" "K \<le> 32"
    and res: "setPoly p r = Some (Inr \<lparr>r_stat = mask K, r_poly = p, r_mask = mask K,
                                         r_hbit = 2 ^ (K - 1), r_degr = int K\<rparr>)"
    by blast
  let ?r' = "\<lparr>r_stat = mask K, r_poly = p, r_mask = mask K, r_hbit = 2 ^ (K - 1), r_degr = int K\<rparr>"
  have "setPoly p ?r' = Some (Inr ?r')"
    using res setPoly_indep [of p ?r' r] by simp
  then have "configured ?r'"
    using assms by (simp add: configured_def)
  moreover have "in_mask ?r'" by (simp add: in_mask_def)
  moreover have "bit (mask K :: uint32_t) 0"
    using K by (simp add: bit_mask_iff)
  then have "(mask K :: uint32_t) \<noteq> 0" by (simp only: nonzero_bits) (rule exI)
  then have "r_stat ?r' \<noteq> 0" by simp
  ultimately show ?thesis using res by blast
qed

lemma stepw_in_mask:
  assumes "\<forall>i. bit p i \<longrightarrow> i < K" "\<forall>i. bit s i \<longrightarrow> i < K"
  shows "bit (stepw p s) i \<longrightarrow> i < K"
proof
  assume b: "bit (stepw p s) i"
  have "bit (drop_bit 1 s) i \<Longrightarrow> i < K"
    using assms(2) by (auto simp: bit_drop_bit_eq dest: Suc_lessD)
  with b assms(1) show "i < K"
    by (auto simp: stepw_def bit_xor_iff split: if_splits)
qed

lemma stepw_nonzero:
  assumes "1 \<le> K" "bit p (K - 1)" "\<forall>i. bit s i \<longrightarrow> i < K" "s \<noteq> 0"
  shows "stepw p s \<noteq> 0"
proof (cases "bit s 0")
  case True
  from assms(1) have "Suc (K - 1) = K" by simp
  with assms(3) have "\<not> bit (drop_bit 1 s) (K - 1)"
    by (auto simp: bit_drop_bit_eq)
  with assms(2) True have "bit (stepw p s) (K - 1)"
    by (simp add: stepw_def bit_xor_iff)
  then show ?thesis by (simp only: nonzero_bits) (rule exI)
next
  case False
  from assms(4) obtain i where i: "bit s i" by (auto simp: nonzero_bits)
  with False have "i \<noteq> 0" by (intro notI) simp
  with i have "bit (drop_bit 1 s) (i - 1)" by (simp add: bit_drop_bit_eq)
  then have "drop_bit 1 s \<noteq> 0" by (simp only: nonzero_bits) (rule exI)
  with False show ?thesis by (simp add: stepw_def)
qed

lemma forw_state_zero_bits:
  "(\<And>i. i < n \<Longrightarrow> \<not> bit b i) \<Longrightarrow> forw_state n p b t = drop_bit n t"
proof (induction n arbitrary: b t)
  case 0
  show ?case by simp
next
  case (Suc n)
  have 0: "\<not> bit b 0" by (rule Suc.prems) simp
  have "forw_state n p (drop_bit 1 b) (drop_bit 1 t) = drop_bit n (drop_bit 1 t)"
    by (rule Suc.IH) (simp add: bit_drop_bit_eq Suc.prems)
  with 0 show ?case by (simp add: drop_bit_drop_bit)
qed

lemma forw_state_in_mask:
  assumes p: "\<forall>i. bit p i \<longrightarrow> i < K"
  shows "\<forall>i. bit t i \<longrightarrow> i < K \<Longrightarrow> \<forall>i. bit (forw_state n p b t) i \<longrightarrow> i < K"
proof (induction n arbitrary: b t)
  case 0
  then show ?case by simp
next
  case (Suc n)
  let ?t = "if bit b 0 then drop_bit 1 t XOR p else drop_bit 1 t"
  have "\<forall>i. bit ?t i \<longrightarrow> i < K"
    using stepw_in_mask [OF p Suc.prems] Suc.prems p
    by (auto simp: bit_xor_iff bit_drop_bit_eq dest: Suc_lessD)
  from Suc.IH [OF this] show ?case by simp
qed

lemma forw_state_nonzero:
  assumes K: "1 \<le> K" and top: "bit p (K - 1)" and p: "\<forall>i. bit p i \<longrightarrow> i < K"
  shows "n \<le> K \<Longrightarrow> \<forall>i. bit t i \<longrightarrow> i < K \<Longrightarrow> \<exists>i<n. bit b i \<Longrightarrow> forw_state n p b t \<noteq> 0"
proof (induction n arbitrary: b t)
  case 0
  then show ?case by simp
next
  case (Suc n)
  let ?t = "if bit b 0 then drop_bit 1 t XOR p else drop_bit 1 t"
  have t': "\<forall>i. bit ?t i \<longrightarrow> i < K"
    using Suc.prems(2) p
    by (auto simp: bit_xor_iff bit_drop_bit_eq dest: Suc_lessD)
  from Suc.prems(1) have n: "n \<le> K" by simp
  show ?case
  proof (cases "\<exists>i<n. bit (drop_bit 1 b) i")
    case True
    from Suc.IH [OF n t' True] show ?thesis by simp
  next
    case False
    then have z: "\<And>i. i < n \<Longrightarrow> \<not> bit (drop_bit 1 b) i" by blast
    from Suc.prems(3) obtain i where i: "i < Suc n" "bit b i" by blast
    have b0: "bit b 0"
    proof (cases i)
      case 0
      with i show ?thesis by simp
    next
      case (Suc j)
      with i z [of j] show ?thesis by (simp add: bit_drop_bit_eq)
    qed
    from K have "Suc (K - 1) = K" by simp
    with Suc.prems(2) have "\<not> bit (drop_bit 1 t) (K - 1)"
      by (auto simp: bit_drop_bit_eq)
    with top b0 have "bit ?t (K - 1)" by (simp add: bit_xor_iff)
    moreover from Suc.prems(1) have "n + (K - 1 - n) = K - 1" by simp
    ultimately have "bit (drop_bit n ?t) (K - 1 - n)"
      by (simp add: bit_drop_bit_eq)
    then have "drop_bit n ?t \<noteq> 0"
      by (simp only: nonzero_bits) (rule exI)
    with forw_state_zero_bits [of n "drop_bit 1 b" p ?t, OF z] show ?thesis
      by simp
  qed
qed

lemma and_mask_nonzero_bits: "((x::uint32_t) AND mask K \<noteq> 0) = (\<exists>i<K. bit x i)"
  using bit_imp_le_length [of x] by (auto simp: nonzero_bits bit_and_iff bit_mask_iff)

lemma outs_zero: "outs n p 0 = replicate n 0"
proof -
  have "(stepw p ^^ i) 0 = 0" for i
    by (induction i) (simp_all add: stepw_def)
  then show ?thesis
    by (simp add: outs_def map_replicate_const)
qed

text \<open>
  C6 (amended). \<open>setPoly\<close> with a non-zero polynomial leaves a configured register whose
  state is within the mask and not zero. On such a register, \<open>step\<close>, \<open>crc_in 0\<close>, a
  \<open>setStat\<close> that returns, \<open>sync_forw x\<close> with \<open>x AND mask \<noteq> 0\<close>, and \<open>sync_back x\<close> with
  \<open>x AND mask \<noteq> 0\<close> at degree at most 31, all leave such a register again. Nothing is
  said of \<open>crc_out\<close>, of \<open>crc_in\<close> with a non-zero bit, or of the synchronisations with
  \<open>x AND mask = 0\<close>.
\<close>

theorem nonzero_state_preserved:
  "(p \<noteq> 0 \<longrightarrow>
      (\<exists>r'. setPoly p r0 = Some (Inr r') \<and> configured r' \<and> in_mask r' \<and> r_stat r' \<noteq> 0))
   \<and> (configured r \<and> in_mask r \<and> r_stat r \<noteq> 0 \<longrightarrow>
      (\<exists>b r'. step r = Inr (b, r') \<and> configured r' \<and> in_mask r' \<and> r_stat r' \<noteq> 0)
      \<and> (\<forall>r'. setStat s r = Inr r' \<longrightarrow> configured r' \<and> in_mask r' \<and> r_stat r' \<noteq> 0)
      \<and> (\<exists>r'. crc_in 0 r = Inr r' \<and> configured r' \<and> in_mask r' \<and> r_stat r' \<noteq> 0)
      \<and> (x AND r_mask r \<noteq> 0 \<longrightarrow>
            (\<exists>r'. sync_forw x r = Inr r' \<and> configured r' \<and> in_mask r' \<and> r_stat r' \<noteq> 0))
      \<and> (x AND r_mask r \<noteq> 0 \<and> r_degr r < 32 \<longrightarrow>
            (\<exists>r'. sync_back x r = Some (Inr r') \<and> configured r' \<and> in_mask r'
               \<and> r_stat r' \<noteq> 0)))"
proof (intro conjI impI)
  assume "p \<noteq> 0"
  then show "\<exists>r'. setPoly p r0 = Some (Inr r') \<and> configured r' \<and> in_mask r' \<and> r_stat r' \<noteq> 0"
    by (rule setPoly_configured)
next
  assume inv: "configured r \<and> in_mask r \<and> r_stat r \<noteq> 0"
  from inv have pz: "r_poly r \<noteq> 0" by (simp add: configured_def)
  from inv configured_bits [of r] obtain K where K: "1 \<le> K" "K \<le> 32" "r_mask r = mask K"
    "r_degr r = int K" "bit (r_poly r) (K - 1)" "\<forall>i. bit (r_poly r) i \<longrightarrow> i < K"
    by blast
  from inv K(3) have s: "\<forall>i. bit (r_stat r) i \<longrightarrow> i < K"
    by (simp add: in_mask_def in_mask_bits)
  let ?s = "stepw (r_poly r) (r_stat r)"
  have s': "\<forall>i. bit ?s i \<longrightarrow> i < K"
    using stepw_in_mask [OF K(6) s] by blast
  have nz: "?s \<noteq> 0"
    using K(1,5) s inv by (intro stepw_nonzero) auto
  have good: "configured (r\<lparr>r_stat := ?s\<rparr>) \<and> in_mask (r\<lparr>r_stat := ?s\<rparr>)
      \<and> r_stat (r\<lparr>r_stat := ?s\<rparr>) \<noteq> 0"
    using inv s' nz K(3) by (simp add: configured_stat in_mask_def in_mask_bits)
  then show "\<exists>b r'. step r = Inr (b, r') \<and> configured r' \<and> in_mask r' \<and> r_stat r' \<noteq> 0"
    using step_stepw [OF pz] by blast
  have "crc_in 0 r = Inr (r\<lparr>r_stat := ?s\<rparr>)"
    using pz by (simp add: crc_in_def stepw_def Let_def and_1_neq0)
  with good show "\<exists>r'. crc_in 0 r = Inr r' \<and> configured r' \<and> in_mask r' \<and> r_stat r' \<noteq> 0"
    by blast
  show "\<forall>r'. setStat s r = Inr r' \<longrightarrow> configured r' \<and> in_mask r' \<and> r_stat r' \<noteq> 0"
    using inv by (auto simp: setStat_def Let_def configured_stat in_mask_def and.assoc
        split: if_splits)
next
  assume inv: "configured r \<and> in_mask r \<and> r_stat r \<noteq> 0" and x: "x AND r_mask r \<noteq> 0"
  from inv have pz: "r_poly r \<noteq> 0" by (simp add: configured_def)
  from inv configured_bits [of r] obtain K where K: "1 \<le> K" "K \<le> 32" "r_mask r = mask K"
    "r_degr r = int K" "bit (r_poly r) (K - 1)" "\<forall>i. bit (r_poly r) i \<longrightarrow> i < K"
    by blast
  from inv K(3) have s: "\<forall>i. bit (r_stat r) i \<longrightarrow> i < K"
    by (simp add: in_mask_def in_mask_bits)
  let ?s = "forw_state K (r_poly r) x (r_stat r)"
  from x K(3) have "\<exists>i<K. bit x i" by (simp add: and_mask_nonzero_bits)
  from forw_state_nonzero [OF K(1,5,6) le_refl s this] have "?s \<noteq> 0" .
  moreover from forw_state_in_mask [OF K(6) s] have "\<forall>i. bit ?s i \<longrightarrow> i < K" .
  ultimately have "configured (r\<lparr>r_stat := ?s\<rparr>) \<and> in_mask (r\<lparr>r_stat := ?s\<rparr>)
      \<and> r_stat (r\<lparr>r_stat := ?s\<rparr>) \<noteq> 0"
    using inv K(3) by (simp add: configured_stat in_mask_def in_mask_bits)
  moreover have "sync_forw x r = Inr (r\<lparr>r_stat := ?s\<rparr>)"
    using pz K(4) by (simp add: sync_forw_def sync_forw_loop_state)
  ultimately show "\<exists>r'. sync_forw x r = Inr r' \<and> configured r' \<and> in_mask r' \<and> r_stat r' \<noteq> 0"
    by blast
next
  assume inv: "configured r \<and> in_mask r \<and> r_stat r \<noteq> 0"
    and x: "x AND r_mask r \<noteq> 0 \<and> r_degr r < 32"
  from inv have c: "configured r" and pz: "r_poly r \<noteq> 0" by (simp_all add: configured_def)
  from configured_bits [OF c] obtain K where K: "r_mask r = mask K" "r_degr r = int K"
    by blast
  from x have d: "r_degr r < 32" by simp
  from sync_back_returns [OF c d, of x] obtain S r2
    where S: "sync_back x r = Some (Inr (r\<lparr>r_stat := S\<rparr>))" "S AND r_mask r = S"
      "steps (nat (r_degr r)) (r\<lparr>r_stat := S\<rparr>) = Inr (word_bits (nat (r_degr r)) x, r2)"
    by blast
  have "S \<noteq> 0"
  proof
    assume "S = 0"
    with S(3) K(2) pz have "word_bits K x = replicate K 0"
      by (simp add: steps_stepw outs_zero)
    then have "\<forall>i<K. (if bit x i then 1 else 0) = (0::uint32_t)"
      by (simp add: word_bits_def list_eq_iff_nth_eq)
    then have "\<not> (\<exists>i<K. bit x i)" by (auto split: if_splits)
    with x K(1) show False by (simp add: and_mask_nonzero_bits)
  qed
  with S(1,2) c show "\<exists>r'. sync_back x r = Some (Inr r') \<and> configured r' \<and> in_mask r'
               \<and> r_stat r' \<noteq> 0"
    by (simp add: configured_stat in_mask_def)
qed

theorem nonzero_state_preserved_witness:
  "G7 \<noteq> 0 \<and> configured reg_G7 \<and> in_mask reg_G7 \<and> r_stat reg_G7 \<noteq> 0
   \<and> 5 AND r_mask reg_G7 \<noteq> 0 \<and> r_degr reg_G7 < 32
   \<and> setStat 5 reg_G7 = Inr (reg_G7\<lparr>r_stat := 5\<rparr>)
   \<and> (\<exists>r'. setPoly G7 (PRBSGenerator_init 0) = Some (Inr r') \<and> configured r' \<and> in_mask r'
          \<and> r_stat r' \<noteq> 0)
   \<and> (\<exists>b r'. step reg_G7 = Inr (b, r') \<and> configured r' \<and> in_mask r' \<and> r_stat r' \<noteq> 0)
   \<and> configured (reg_G7\<lparr>r_stat := 5\<rparr>) \<and> in_mask (reg_G7\<lparr>r_stat := 5\<rparr>)
   \<and> r_stat (reg_G7\<lparr>r_stat := 5\<rparr>) \<noteq> 0
   \<and> (\<exists>r'. crc_in 0 reg_G7 = Inr r' \<and> configured r' \<and> in_mask r' \<and> r_stat r' \<noteq> 0)
   \<and> (\<exists>r'. sync_forw 5 reg_G7 = Inr r' \<and> configured r' \<and> in_mask r' \<and> r_stat r' \<noteq> 0)
   \<and> (\<exists>r'. sync_back 5 reg_G7 = Some (Inr r') \<and> configured r' \<and> in_mask r'
          \<and> r_stat r' \<noteq> 0)"
proof -
  have a: "G7 \<noteq> 0" by (simp add: G7_def)
  have b: "in_mask reg_G7" "r_stat reg_G7 \<noteq> 0" "5 AND r_mask reg_G7 \<noteq> 0" "r_degr reg_G7 < 32"
    by (simp_all add: in_mask_def reg_G7_def)
  have c: "setStat 5 reg_G7 = Inr (reg_G7\<lparr>r_stat := 5\<rparr>)"
    by (simp add: setStat_def reg_G7_def Let_def)
  from nonzero_state_preserved [of G7 "PRBSGenerator_init 0" reg_G7 5 5] a b c configured_G7
  show ?thesis by blast
qed

text \<open>
  The claim as stated fails on \<open>G7\<close>: \<open>sync_forw 0\<close> and \<open>sync_back 0\<close> from the reset
  state, and \<open>crc_in 1\<close> and \<open>crc_out\<close> from state 1, leave the state zero.
\<close>

theorem zero_state_reached_counterexample:
  "setPoly G7 (PRBSGenerator_init 0) = Some (Inr reg_G7) \<and> r_stat reg_G7 \<noteq> 0
   \<and> 0 AND r_mask reg_G7 = 0
   \<and> sync_forw 0 reg_G7 = Inr (reg_G7\<lparr>r_stat := 0\<rparr>)
   \<and> sync_back 0 reg_G7 = Some (Inr (reg_G7\<lparr>r_stat := 0\<rparr>))
   \<and> setStat 1 reg_G7 = Inr (reg_G7\<lparr>r_stat := 1\<rparr>)
   \<and> crc_in 1 (reg_G7\<lparr>r_stat := 1\<rparr>) = Inr (reg_G7\<lparr>r_stat := 0\<rparr>)
   \<and> crc_out (reg_G7\<lparr>r_stat := 1\<rparr>) = Inr (1, reg_G7\<lparr>r_stat := 0\<rparr>)"
proof -
  have "sync_forw 0 reg_G7 = Inr (reg_G7\<lparr>r_stat := 0\<rparr>)"
    by (simp add: sync_forw_def sync_forw_loop.simps reg_G7_def Let_def)
  moreover have "sync_back 0 reg_G7 = Some (Inr (reg_G7\<lparr>r_stat := 0\<rparr>))"
    by (simp add: sync_back_def sync_back_loop.simps reg_G7_def Let_def)
  moreover have "setStat 1 reg_G7 = Inr (reg_G7\<lparr>r_stat := 1\<rparr>)"
    by (simp add: setStat_def reg_G7_def Let_def)
  moreover have "crc_in 1 (reg_G7\<lparr>r_stat := 1\<rparr>) = Inr (reg_G7\<lparr>r_stat := 0\<rparr>)"
    by (simp add: crc_in_def reg_G7_def Let_def)
  moreover have "crc_out (reg_G7\<lparr>r_stat := 1\<rparr>) = Inr (1, reg_G7\<lparr>r_stat := 0\<rparr>)"
    by (simp add: crc_out_def reg_G7_def Let_def)
  moreover have "r_stat reg_G7 \<noteq> 0"
    by (simp add: reg_G7_def)
  ultimately show ?thesis
    by (simp add: setPoly_G7)
qed

end
